theory Spec2Isabelle
  imports Main
begin

section \<open>The AVL tree of \<^verbatim>\<open>src/include/avl.hpp\<close>\<close>

subsection \<open>Nodes\<close>

text \<open>
  A \<^verbatim>\<open>TreeNode*\<close> is either \<^verbatim>\<open>nullptr\<close> or points to a node holding \<^verbatim>\<open>data\<close>,
  \<^verbatim>\<open>left\<close>, \<^verbatim>\<open>right\<close> and the cached \<^verbatim>\<open>height\<close>, in the order of the struct. Every node
  is owned by exactly one slot, so a pointer is modelled by the subtree it owns. The \<^verbatim>\<open>int\<close>
  height field is a mathematical integer here. Every value the code writes to the field is
  1 or one more than a value read from a field, so the model leaves the code only at a
  stored height of \<open>2 ^ 31 - 1\<close>. The element type \<^verbatim>\<open>T\<close> is a linear order: \<^verbatim>\<open>==\<close>, \<^verbatim>\<open><\<close>
  and \<^verbatim>\<open>>\<close> are the equality and the order of one strict total order.
\<close>

datatype 'a TreeNode = Nullptr | TreeNode 'a "'a TreeNode" "'a TreeNode" int

text \<open>The constructor \<^verbatim>\<open>TreeNode(const T& value)\<close>: no children, height 1.\<close>

definition new_TreeNode :: "'a \<Rightarrow> 'a TreeNode" where
  "new_TreeNode v = TreeNode v Nullptr Nullptr 1"

text \<open>\<^verbatim>\<open>AVL<T>::height\<close>: the stored field, or \<open>-1\<close> for \<^verbatim>\<open>nullptr\<close>.\<close>

fun height :: "'a TreeNode \<Rightarrow> int" where
  "height Nullptr = - 1"
| "height (TreeNode d l r h) = h"

subsection \<open>Rebalancing\<close>

text \<open>
  The simple right rotation of \<^verbatim>\<open>balance\<close> (second half of the left-heavy branch), with
  its height updates: \<^verbatim>\<open>leftChild = node->left; node->left = leftChild->right;
  leftChild->right = node\<close>, then the height of \<^verbatim>\<open>node\<close> and the height of \<^verbatim>\<open>leftChild\<close>
  are recomputed, in this order, and \<^verbatim>\<open>leftChild\<close> is the new top. \<open>None\<close> is the
  dereference of a null \<^verbatim>\<open>node\<close> or \<^verbatim>\<open>leftChild\<close>.
\<close>

fun rotate_right :: "'a TreeNode \<Rightarrow> 'a TreeNode option" where
  "rotate_right (TreeNode d (TreeNode ld ll lr lh) r h) =
     (let node = TreeNode d lr r (max (height lr) (height r) + 1)
      in Some (TreeNode ld ll node (max (height ll) (height node) + 1)))"
| "rotate_right _ = None"

text \<open>The simple left rotation of the right-heavy branch, symmetric.\<close>

fun rotate_left :: "'a TreeNode \<Rightarrow> 'a TreeNode option" where
  "rotate_left (TreeNode d l (TreeNode rd rl rr rh) h) =
     (let node = TreeNode d l rl (max (height l) (height rl) + 1)
      in Some (TreeNode rd node rr (max (height node) (height rr) + 1)))"
| "rotate_left _ = None"

text \<open>
  The first half of the double rotations. For the left-right one:
  \<^verbatim>\<open>leftChild->right = leftRightChild->left; leftRightChild->left = leftChild;
  node->left = leftRightChild\<close>. No height is written here: \<^verbatim>\<open>leftChild\<close> keeps the height
  it had.
\<close>

fun double_left_right :: "'a TreeNode \<Rightarrow> 'a TreeNode option" where
  "double_left_right (TreeNode d (TreeNode ld ll (TreeNode lrd lrl lrr lrh) lh) r h) =
     Some (TreeNode d (TreeNode lrd (TreeNode ld ll lrl lh) lrr lrh) r h)"
| "double_left_right _ = None"

fun double_right_left :: "'a TreeNode \<Rightarrow> 'a TreeNode option" where
  "double_right_left (TreeNode d l (TreeNode rd (TreeNode rld rll rlr rlh) rr rh) h) =
     Some (TreeNode d l (TreeNode rld rll (TreeNode rd rlr rr rh) rlh) h)"
| "double_right_left _ = None"

text \<open>The children of a node; \<open>None\<close> is the dereference of \<^verbatim>\<open>nullptr\<close>.\<close>

fun left :: "'a TreeNode \<Rightarrow> 'a TreeNode option" where
  "left Nullptr = None"
| "left (TreeNode d l r h) = Some l"

fun right :: "'a TreeNode \<Rightarrow> 'a TreeNode option" where
  "right Nullptr = None"
| "right (TreeNode d l r h) = Some r"

text \<open>\<^verbatim>\<open>node->data\<close>, with \<open>None\<close> for the dereference of \<^verbatim>\<open>nullptr\<close>.\<close>

fun data :: "'a TreeNode \<Rightarrow> 'a option" where
  "data Nullptr = None"
| "data (TreeNode d l r h) = Some d"

text \<open>
  \<^verbatim>\<open>AVL<T>::balance(TreeNode*& node)\<close>; the result is the new value of the slot \<^verbatim>\<open>node\<close>.
  The tests \<^verbatim>\<open>height(node->left->right) > height(node->left->left)\<close> and its mirror image
  dereference \<^verbatim>\<open>node->left\<close> (\<^verbatim>\<open>node->right\<close>).
\<close>

fun balance :: "'a TreeNode \<Rightarrow> 'a TreeNode option" where
  "balance Nullptr = Some Nullptr"
| "balance (TreeNode d l r h) =
     (let balanceFactor = height l - height r in
      if balanceFactor > 1 then
        (case (left l, right l) of
           (Some ll, Some lr) \<Rightarrow>
             if height lr > height ll
             then Option.bind (double_left_right (TreeNode d l r h)) rotate_right
             else rotate_right (TreeNode d l r h)
         | _ \<Rightarrow> None)
      else if balanceFactor < - 1 then
        (case (left r, right r) of
           (Some rl, Some rr) \<Rightarrow>
             if height rl > height rr
             then Option.bind (double_right_left (TreeNode d l r h)) rotate_left
             else rotate_left (TreeNode d l r h)
         | _ \<Rightarrow> None)
      else Some (TreeNode d l r (max (height l) (height r) + 1)))"

text \<open>
  The statement pair \<^verbatim>\<open>node->height = std::max(height(node->left), height(node->right)) + 1;
  balance(node);\<close> that ends both \<^verbatim>\<open>insert\<close> and \<^verbatim>\<open>remove\<close>. Both run it on a node
  only; \<open>None\<close> is the dereference of \<^verbatim>\<open>nullptr\<close>.
\<close>

fun update_and_balance :: "'a TreeNode \<Rightarrow> 'a TreeNode option" where
  "update_and_balance Nullptr = None"
| "update_and_balance (TreeNode d l r h) =
     balance (TreeNode d l r (max (height l) (height r) + 1))"

subsection \<open>Insertion, lookup and removal\<close>

text \<open>
  \<^verbatim>\<open>AVL<T>::insert(TreeNode*& node, const T& value)\<close>: the returned pair is the \<^verbatim>\<open>bool\<close>
  result and the new value of the slot.
\<close>

fun avl_insert :: "'a::linorder \<Rightarrow> 'a TreeNode \<Rightarrow> (bool \<times> 'a TreeNode) option" where
  "avl_insert v Nullptr = Some (True, new_TreeNode v)"
| "avl_insert v (TreeNode d l r h) =
     (if v = d then Some (False, TreeNode d l r h)
      else if v < d then
        (case avl_insert v l of
           None \<Rightarrow> None
         | Some (inserted, l') \<Rightarrow>
             if inserted then map_option (Pair True) (update_and_balance (TreeNode d l' r h))
             else Some (False, TreeNode d l' r h))
      else
        (case avl_insert v r of
           None \<Rightarrow> None
         | Some (inserted, r') \<Rightarrow>
             if inserted then map_option (Pair True) (update_and_balance (TreeNode d l r' h))
             else Some (False, TreeNode d l r' h)))"

text \<open>\<^verbatim>\<open>AVL<T>::contain(const TreeNode* const node, const T& value)\<close>.\<close>

fun contain :: "'a::linorder TreeNode \<Rightarrow> 'a \<Rightarrow> bool" where
  "contain Nullptr v = False"
| "contain (TreeNode d l r h) v =
     (if v = d then True else if v < d then contain l v else contain r v)"

text \<open>
  \<^verbatim>\<open>TreeNode::min()\<close>, the leftmost node below \<^verbatim>\<open>this\<close>; the model returns its \<^verbatim>\<open>data\<close>, the
  only field \<^verbatim>\<open>remove\<close> reads from it. \<open>None\<close> is a call on \<^verbatim>\<open>nullptr\<close>.
\<close>

fun min_data :: "'a TreeNode \<Rightarrow> 'a option" where
  "min_data Nullptr = None"
| "min_data (TreeNode d l r h) = (if l = Nullptr then Some d else min_data l)"

text \<open>The tail of \<^verbatim>\<open>remove\<close>: \<^verbatim>\<open>if (removed && node) { ... }  return removed;\<close>.\<close>

definition remove_finish :: "bool \<Rightarrow> 'a TreeNode \<Rightarrow> (bool \<times> 'a TreeNode) option" where
  "remove_finish removed node =
     (if removed \<and> node \<noteq> Nullptr then map_option (Pair removed) (update_and_balance node)
      else Some (removed, node))"

text \<open>
  \<^verbatim>\<open>AVL<T>::remove(TreeNode*& node, const T& value)\<close>. In the case of two children the
  result of the inner \<^verbatim>\<open>remove(node->right, successor->data)\<close> is dropped and \<^verbatim>\<open>removed\<close>
  stays \<^verbatim>\<open>true\<close>.
\<close>

fun avl_remove :: "'a::linorder \<Rightarrow> 'a TreeNode \<Rightarrow> (bool \<times> 'a TreeNode) option" where
  "avl_remove v Nullptr = Some (False, Nullptr)"
| "avl_remove v (TreeNode d l r h) =
     (if v < d then
        (case avl_remove v l of
           None \<Rightarrow> None
         | Some (removed, l') \<Rightarrow> remove_finish removed (TreeNode d l' r h))
      else if v > d then
        (case avl_remove v r of
           None \<Rightarrow> None
         | Some (removed, r') \<Rightarrow> remove_finish removed (TreeNode d l r' h))
      else if l = Nullptr then remove_finish True r
      else if r = Nullptr then remove_finish True l
      else
        (case min_data r of
           None \<Rightarrow> None
         | Some s \<Rightarrow>
             (case avl_remove s r of
                None \<Rightarrow> None
              | Some (_, r') \<Rightarrow> remove_finish True (TreeNode s l r' h))))"

subsection \<open>Traversals and the balance check\<close>

fun in_order :: "'a TreeNode \<Rightarrow> 'a list" where
  "in_order Nullptr = []"
| "in_order (TreeNode d l r h) = in_order l @ d # in_order r"

fun pre_order :: "'a TreeNode \<Rightarrow> 'a list" where
  "pre_order Nullptr = []"
| "pre_order (TreeNode d l r h) = d # pre_order l @ pre_order r"

fun post_order :: "'a TreeNode \<Rightarrow> 'a list" where
  "post_order Nullptr = []"
| "post_order (TreeNode d l r h) = post_order l @ post_order r @ [d]"

text \<open>\<^verbatim>\<open>is_balanced(TreeNode* node)\<close>, the pair (balanced, height).\<close>

fun is_balanced_node :: "'a TreeNode \<Rightarrow> bool \<times> int" where
  "is_balanced_node Nullptr = (True, - 1)"
| "is_balanced_node (TreeNode d l r h) =
     (let left = is_balanced_node l;
          right = is_balanced_node r;
          balanced = (fst left \<and> fst right \<and> \<bar>snd left - snd right\<bar> \<le> 1);
          node_height = 1 + max (snd left) (snd right)
      in (balanced, node_height))"

definition is_balanced :: "'a TreeNode \<Rightarrow> bool" where
  "is_balanced root = fst (is_balanced_node root)"

subsection \<open>Sequences of calls on the public interface\<close>

datatype 'a call = Insert 'a | Remove 'a

fun run_call :: "'a::linorder call \<Rightarrow> 'a TreeNode \<Rightarrow> (bool \<times> 'a TreeNode) option" where
  "run_call (Insert v) root = avl_insert v root"
| "run_call (Remove v) root = avl_remove v root"

text \<open>
  Running a list of calls from a root: the results of the calls, in order, and the final
  root.
\<close>

fun run_calls :: "'a::linorder call list \<Rightarrow> 'a TreeNode \<Rightarrow> (bool list \<times> 'a TreeNode) option" where
  "run_calls [] root = Some ([], root)"
| "run_calls (c # cs) root =
     (case run_call c root of
        None \<Rightarrow> None
      | Some (b, root') \<Rightarrow>
          (case run_calls cs root' of
             None \<Rightarrow> None
           | Some (bs, root'') \<Rightarrow> Some (b # bs, root'')))"

subsection \<open>Instrumentation: which branch of \<^verbatim>\<open>balance\<close> runs\<close>

datatype rotation = NoRotation | SimpleRight | DoubleLeftRight | SimpleLeft | DoubleRightLeft

text \<open>
  The branch \<^verbatim>\<open>balance\<close> takes at a node, by the same tests in the same order. (Where
  \<^verbatim>\<open>balance\<close> would dereference \<^verbatim>\<open>nullptr\<close> no rotation is reported.)
\<close>

fun balance_case :: "'a TreeNode \<Rightarrow> rotation" where
  "balance_case Nullptr = NoRotation"
| "balance_case (TreeNode d l r h) =
     (let balanceFactor = height l - height r in
      if balanceFactor > 1 then
        (case (left l, right l) of
           (Some ll, Some lr) \<Rightarrow> if height lr > height ll then DoubleLeftRight else SimpleRight
         | _ \<Rightarrow> NoRotation)
      else if balanceFactor < - 1 then
        (case (left r, right r) of
           (Some rl, Some rr) \<Rightarrow> if height rl > height rr then DoubleRightLeft else SimpleLeft
         | _ \<Rightarrow> NoRotation)
      else NoRotation)"

text \<open>The node \<^verbatim>\<open>balance\<close> is called on by \<open>update_and_balance\<close>, paired with its data.\<close>

fun balance_event :: "'a TreeNode \<Rightarrow> ('a \<times> rotation) list" where
  "balance_event Nullptr = []"
| "balance_event (TreeNode d l r h) =
     [(d, balance_case (TreeNode d l r (max (height l) (height r) + 1)))]"

text \<open>
  \<^verbatim>\<open>insert\<close> with a ghost log: one entry for every call of \<^verbatim>\<open>balance\<close>, innermost first, so
  the entry of the root comes last. The log is not read by the computation.
\<close>

fun avl_insert_log ::
  "'a::linorder \<Rightarrow> 'a TreeNode \<Rightarrow> (bool \<times> 'a TreeNode \<times> ('a \<times> rotation) list) option" where
  "avl_insert_log v Nullptr = Some (True, new_TreeNode v, [])"
| "avl_insert_log v (TreeNode d l r h) =
     (if v = d then Some (False, TreeNode d l r h, [])
      else if v < d then
        (case avl_insert_log v l of
           None \<Rightarrow> None
         | Some (inserted, l', evs) \<Rightarrow>
             if inserted
             then map_option (\<lambda>t. (True, t, evs @ balance_event (TreeNode d l' r h)))
                    (update_and_balance (TreeNode d l' r h))
             else Some (False, TreeNode d l' r h, evs))
      else
        (case avl_insert_log v r of
           None \<Rightarrow> None
         | Some (inserted, r', evs) \<Rightarrow>
             if inserted
             then map_option (\<lambda>t. (True, t, evs @ balance_event (TreeNode d l r' h)))
                    (update_and_balance (TreeNode d l r' h))
             else Some (False, TreeNode d l r' h, evs)))"

subsection \<open>Properties of trees\<close>

text \<open>
  The search-tree property, node by node: everything stored on the left is smaller than the
  node's data, everything on the right is greater.
\<close>

fun bst :: "'a::linorder TreeNode \<Rightarrow> bool" where
  "bst Nullptr = True"
| "bst (TreeNode d l r h) =
     (bst l \<and> bst r \<and> (\<forall>x \<in> set (in_order l). x < d) \<and> (\<forall>x \<in> set (in_order r). d < x))"

text \<open>No stored height is negative: what keeps \<^verbatim>\<open>balance\<close> away from \<^verbatim>\<open>nullptr\<close>.\<close>

fun heights_nonneg :: "'a TreeNode \<Rightarrow> bool" where
  "heights_nonneg Nullptr = True"
| "heights_nonneg (TreeNode d l r h) = (0 \<le> h \<and> heights_nonneg l \<and> heights_nonneg r)"

definition tree_inv :: "'a::linorder TreeNode \<Rightarrow> bool" where
  "tree_inv t \<longleftrightarrow> heights_nonneg t \<and> bst t"

text \<open>
  The height of a subtree counted on its structure, \<open>-1\<close> for a missing one, and the two
  properties the documentation states of the stored field and of the shape: the field of
  every node is one more than the larger height of its children (read through \<^verbatim>\<open>height()\<close>,
  or counted on the structure), and the structural heights of the two children of every node
  differ by at most one.
\<close>

fun structural_height :: "'a TreeNode \<Rightarrow> int" where
  "structural_height Nullptr = - 1"
| "structural_height (TreeNode d l r h) = 1 + max (structural_height l) (structural_height r)"

fun height_fields_consistent :: "'a TreeNode \<Rightarrow> bool" where
  "height_fields_consistent Nullptr = True"
| "height_fields_consistent (TreeNode d l r h) =
     (h = 1 + max (height l) (height r) \<and> height_fields_consistent l \<and> height_fields_consistent r)"

fun height_fields_structural :: "'a TreeNode \<Rightarrow> bool" where
  "height_fields_structural Nullptr = True"
| "height_fields_structural (TreeNode d l r h) =
     (h = 1 + max (structural_height l) (structural_height r)
      \<and> height_fields_structural l \<and> height_fields_structural r)"

fun avl_shape :: "'a TreeNode \<Rightarrow> bool" where
  "avl_shape Nullptr = True"
| "avl_shape (TreeNode d l r h) =
     (\<bar>structural_height l - structural_height r\<bar> \<le> 1 \<and> avl_shape l \<and> avl_shape r)"

subsection \<open>The abstract view of a sequence of calls\<close>

text \<open>The values present after a list of calls, starting from the set \<open>S\<close>.\<close>

fun present_values :: "'a call list \<Rightarrow> 'a set \<Rightarrow> 'a set" where
  "present_values [] S = S"
| "present_values (Insert v # cs) S = present_values cs (insert v S)"
| "present_values (Remove v # cs) S = present_values cs (S - {v})"

text \<open>How many \<^verbatim>\<open>insert\<close> calls, and how many \<^verbatim>\<open>remove\<close> calls, returned \<^verbatim>\<open>true\<close>.\<close>

fun inserts_true :: "'a call list \<Rightarrow> bool list \<Rightarrow> nat" where
  "inserts_true [] bs = 0"
| "inserts_true (c # cs) [] = 0"
| "inserts_true (Insert v # cs) (b # bs) = (if b then 1 else 0) + inserts_true cs bs"
| "inserts_true (Remove v # cs) (b # bs) = inserts_true cs bs"

fun removes_true :: "'a call list \<Rightarrow> bool list \<Rightarrow> nat" where
  "removes_true [] bs = 0"
| "removes_true (c # cs) [] = 0"
| "removes_true (Insert v # cs) (b # bs) = removes_true cs bs"
| "removes_true (Remove v # cs) (b # bs) = (if b then 1 else 0) + removes_true cs bs"

section \<open>Facts about the operations\<close>

lemma height_lower: "heights_nonneg t \<Longrightarrow> - 1 \<le> height t"
  by (cases t) auto

lemma bst_sorted: "bst t \<longleftrightarrow> sorted_wrt (<) (in_order t)"
  by (induction t) (force simp: sorted_wrt_append)+

lemma rotate_right_in_order: "rotate_right t = Some t' \<Longrightarrow> in_order t' = in_order t"
  by (induction t rule: rotate_right.induct) (auto simp: Let_def)

lemma rotate_left_in_order: "rotate_left t = Some t' \<Longrightarrow> in_order t' = in_order t"
  by (induction t rule: rotate_left.induct) (auto simp: Let_def)

lemma double_left_right_in_order: "double_left_right t = Some t' \<Longrightarrow> in_order t' = in_order t"
  by (induction t rule: double_left_right.induct) auto

lemma double_right_left_in_order: "double_right_left t = Some t' \<Longrightarrow> in_order t' = in_order t"
  by (induction t rule: double_right_left.induct) auto

lemma balance_in_order: "balance t = Some t' \<Longrightarrow> in_order t' = in_order t"
proof (cases t)
  case Nullptr
  then show "balance t = Some t' \<Longrightarrow> in_order t' = in_order t" by simp
next
  case (TreeNode d l r h)
  assume "balance t = Some t'"
  with TreeNode show "in_order t' = in_order t"
    by (auto simp: Let_def split: if_splits option.splits prod.splits Option.bind_splits
        dest!: rotate_right_in_order rotate_left_in_order double_left_right_in_order double_right_left_in_order)
qed

lemma balance_defined:
  assumes "heights_nonneg l" "heights_nonneg r"
  shows "\<exists>t'. balance (TreeNode d l r h) = Some t' \<and> heights_nonneg t' \<and> t' \<noteq> Nullptr"
proof -
  let ?bf = "height l - height r"
  consider (L) "?bf > 1" | (R) "?bf < - 1" | (N) "\<not> ?bf > 1" "\<not> ?bf < - 1" by linarith
  then show ?thesis
  proof cases
    case L
    with assms height_lower[of r] obtain ld ll lr lh where l: "l = TreeNode ld ll lr lh"
      by (cases l) auto
    show ?thesis
    proof (cases "height lr > height ll")
      case True
      with assms l height_lower[of ll] obtain a b c e where lr: "lr = TreeNode a b c e"
        by (cases lr) auto
      with L l True assms height_lower[of b] height_lower[of c] height_lower[of ll] height_lower[of r]
      show ?thesis by (simp add: Let_def)
    next
      case False
      with L l assms height_lower[of lr] height_lower[of ll] height_lower[of r]
      show ?thesis by (simp add: Let_def)
    qed
  next
    case R
    with assms height_lower[of l] obtain rd rl rr rh where r: "r = TreeNode rd rl rr rh"
      by (cases r) auto
    show ?thesis
    proof (cases "height rl > height rr")
      case True
      with assms r height_lower[of rr] obtain a b c e where rl: "rl = TreeNode a b c e"
        by (cases rl) auto
      with R r True assms height_lower[of b] height_lower[of c] height_lower[of rr] height_lower[of l]
      show ?thesis by (simp add: Let_def)
    next
      case False
      with R r assms height_lower[of rl] height_lower[of rr] height_lower[of l]
      show ?thesis by (simp add: Let_def)
    qed
  next
    case N
    with assms height_lower[of l] height_lower[of r] show ?thesis by (simp add: Let_def)
  qed
qed

lemma update_and_balance_defined:
  assumes "heights_nonneg l" "heights_nonneg r"
  shows "\<exists>t'. update_and_balance (TreeNode d l r h) = Some t' \<and> heights_nonneg t' \<and> t' \<noteq> Nullptr
     \<and> in_order t' = in_order l @ d # in_order r"
proof -
  from balance_defined[OF assms, of d "max (height l) (height r) + 1"]
  obtain t' where t': "balance (TreeNode d l r (max (height l) (height r) + 1)) = Some t'"
    "heights_nonneg t'" "t' \<noteq> Nullptr" by blast
  from balance_in_order[OF t'(1)] t' show ?thesis by simp
qed

lemma contain_set: "bst t \<Longrightarrow> contain t v \<longleftrightarrow> v \<in> set (in_order t)"
  by (induction t) auto

lemma avl_insert_correct:
  assumes "heights_nonneg t" "bst t"
  shows "\<exists>t'. avl_insert v t = Some (v \<notin> set (in_order t), t') \<and> heights_nonneg t' \<and> bst t'
     \<and> set (in_order t') = insert v (set (in_order t)) \<and> t' \<noteq> Nullptr
     \<and> (v \<in> set (in_order t) \<longrightarrow> t' = t)"
  using assms
proof (induction t)
  case Nullptr
  then show ?case by (simp add: new_TreeNode_def)
next
  case (TreeNode d l r h)
  have hl: "heights_nonneg l" and hr: "heights_nonneg r" and bl: "bst l" and br: "bst r"
    and lt: "\<forall>x \<in> set (in_order l). x < d" and gt: "\<forall>x \<in> set (in_order r). d < x"
    using TreeNode.prems by auto
  consider (eq) "v = d" | (lt) "v < d" | (gt) "d < v" by (cases v d rule: linorder_cases) auto
  then show ?case
  proof cases
    case eq
    with TreeNode.prems show ?thesis by simp
  next
    case lt
    from TreeNode.IH(1)[OF hl bl] obtain l' where l':
      "avl_insert v l = Some (v \<notin> set (in_order l), l')" "heights_nonneg l'" "bst l'"
      "set (in_order l') = insert v (set (in_order l))" "v \<in> set (in_order l) \<longrightarrow> l' = l"
      by blast
    have notr: "v \<notin> set (in_order r)" using gt lt by auto
    show ?thesis
    proof (cases "v \<in> set (in_order l)")
      case True
      with l' lt TreeNode.prems show ?thesis by auto
    next
      case False
      from update_and_balance_defined[OF l'(2) hr, of d h] obtain t' where t':
        "update_and_balance (TreeNode d l' r h) = Some t'" "heights_nonneg t'" "t' \<noteq> Nullptr"
        "in_order t' = in_order l' @ d # in_order r" by blast
      have "bst (TreeNode d l' r h)" using l' br \<open>\<forall>x \<in> set (in_order l). x < d\<close> gt lt by auto
      then have "bst t'" using t'(4) by (simp add: bst_sorted)
      with False l' t' lt notr show ?thesis by auto
    qed
  next
    case gt
    from TreeNode.IH(2)[OF hr br] obtain r' where r':
      "avl_insert v r = Some (v \<notin> set (in_order r), r')" "heights_nonneg r'" "bst r'"
      "set (in_order r') = insert v (set (in_order r))" "v \<in> set (in_order r) \<longrightarrow> r' = r"
      by blast
    have notl: "v \<notin> set (in_order l)" using \<open>\<forall>x \<in> set (in_order l). x < d\<close> gt by auto
    show ?thesis
    proof (cases "v \<in> set (in_order r)")
      case True
      with r' gt TreeNode.prems show ?thesis by auto
    next
      case False
      from update_and_balance_defined[OF hl r'(2), of d h] obtain t' where t':
        "update_and_balance (TreeNode d l r' h) = Some t'" "heights_nonneg t'" "t' \<noteq> Nullptr"
        "in_order t' = in_order l @ d # in_order r'" by blast
      have "bst (TreeNode d l r' h)" using r' bl \<open>\<forall>x \<in> set (in_order l). x < d\<close> \<open>\<forall>x \<in> set (in_order r). d < x\<close> gt by auto
      then have "bst t'" using t'(4) by (simp add: bst_sorted)
      with False r' t' gt notl show ?thesis by auto
    qed
  qed
qed

lemma min_data_correct:
  "t \<noteq> Nullptr \<Longrightarrow> bst t \<Longrightarrow>
     \<exists>s. min_data t = Some s \<and> s \<in> set (in_order t) \<and> (\<forall>x \<in> set (in_order t). s \<le> x)"
proof (induction t)
  case Nullptr
  then show ?case by simp
next
  case (TreeNode d l r h)
  show ?case
  proof (cases "l = Nullptr")
    case True
    with TreeNode.prems show ?thesis by auto
  next
    case False
    with TreeNode.IH(1) TreeNode.prems obtain s where
      "min_data l = Some s" "s \<in> set (in_order l)" "\<forall>x \<in> set (in_order l). s \<le> x" by auto
    with False TreeNode.prems show ?thesis by force
  qed
qed

lemma remove_finish_defined:
  assumes "heights_nonneg t"
  shows "\<exists>t'. remove_finish b t = Some (b, t') \<and> heights_nonneg t' \<and> in_order t' = in_order t
     \<and> (\<not> b \<longrightarrow> t' = t)"
proof (cases t)
  case Nullptr
  then show ?thesis by (simp add: remove_finish_def)
next
  case (TreeNode d l r h)
  with assms update_and_balance_defined[of l r d h] show ?thesis
    by (auto simp: remove_finish_def)
qed

lemma avl_remove_correct:
  assumes "heights_nonneg t" "bst t"
  shows "\<exists>t'. avl_remove v t = Some (v \<in> set (in_order t), t') \<and> heights_nonneg t' \<and> bst t'
     \<and> set (in_order t') = set (in_order t) - {v}
     \<and> (v \<notin> set (in_order t) \<longrightarrow> t' = t)"
  using assms
proof (induction t arbitrary: v)
  case Nullptr
  then show ?case by simp
next
  case (TreeNode d l r h)
  have hl: "heights_nonneg l" and hr: "heights_nonneg r" and bl: "bst l" and br: "bst r"
    and lt: "\<forall>x \<in> set (in_order l). x < d" and gt: "\<forall>x \<in> set (in_order r). d < x"
    using TreeNode.prems by auto
  consider (less) "v < d" | (greater) "d < v" | (eq) "v = d" by (cases v d rule: linorder_cases) auto
  then show ?case
  proof cases
    case less
    from TreeNode.IH(1)[OF hl bl, of v] obtain l' where l':
      "avl_remove v l = Some (v \<in> set (in_order l), l')" "heights_nonneg l'" "bst l'"
      "set (in_order l') = set (in_order l) - {v}" "v \<notin> set (in_order l) \<longrightarrow> l' = l"
      by blast
    have notr: "v \<notin> set (in_order r)" using gt less by auto
    have hn: "heights_nonneg (TreeNode d l' r h)" using TreeNode.prems l' by simp
    from remove_finish_defined[OF hn, of "v \<in> set (in_order l)"] obtain t' where t':
      "remove_finish (v \<in> set (in_order l)) (TreeNode d l' r h) = Some (v \<in> set (in_order l), t')"
      "heights_nonneg t'" "in_order t' = in_order (TreeNode d l' r h)"
      "v \<notin> set (in_order l) \<longrightarrow> t' = TreeNode d l' r h" by blast
    have "bst (TreeNode d l' r h)" using l' br lt gt by auto
    then have "bst t'" using t'(3) by (simp add: bst_sorted)
    with l' t' less notr show ?thesis by auto
  next
    case greater
    from TreeNode.IH(2)[OF hr br, of v] obtain r' where r':
      "avl_remove v r = Some (v \<in> set (in_order r), r')" "heights_nonneg r'" "bst r'"
      "set (in_order r') = set (in_order r) - {v}" "v \<notin> set (in_order r) \<longrightarrow> r' = r"
      by blast
    have notl: "v \<notin> set (in_order l)" using lt greater by auto
    have hn: "heights_nonneg (TreeNode d l r' h)" using TreeNode.prems r' by simp
    from remove_finish_defined[OF hn, of "v \<in> set (in_order r)"] obtain t' where t':
      "remove_finish (v \<in> set (in_order r)) (TreeNode d l r' h) = Some (v \<in> set (in_order r), t')"
      "heights_nonneg t'" "in_order t' = in_order (TreeNode d l r' h)"
      "v \<notin> set (in_order r) \<longrightarrow> t' = TreeNode d l r' h" by blast
    have "bst (TreeNode d l r' h)" using r' bl lt gt by auto
    then have "bst t'" using t'(3) by (simp add: bst_sorted)
    moreover have "\<not> v < d" using greater by simp
    ultimately show ?thesis using r' t' greater notl by auto
  next
    case eq
    have notl: "d \<notin> set (in_order l)" and notr: "d \<notin> set (in_order r)" using lt gt by auto
    show ?thesis
    proof (cases "l = Nullptr")
      case True
      from remove_finish_defined[OF hr, of True] obtain t' where t':
        "remove_finish True r = Some (True, t')" "heights_nonneg t'" "in_order t' = in_order r"
        by blast
      have "bst t'" using br t'(3) by (simp add: bst_sorted)
      with True eq t' notr show ?thesis by auto
    next
      case lnn: False
      show ?thesis
      proof (cases "r = Nullptr")
        case True
        from remove_finish_defined[OF hl, of True] obtain t' where t':
          "remove_finish True l = Some (True, t')" "heights_nonneg t'" "in_order t' = in_order l"
          by blast
        have "bst t'" using bl t'(3) by (simp add: bst_sorted)
        with True lnn eq t' notl show ?thesis by auto
      next
        case rnn: False
        from min_data_correct[OF rnn br] obtain s where s:
          "min_data r = Some s" "s \<in> set (in_order r)" "\<forall>x \<in> set (in_order r). s \<le> x" by blast
        from TreeNode.IH(2)[OF hr br, of s] s(2) obtain r' where r':
          "avl_remove s r = Some (True, r')" "heights_nonneg r'" "bst r'"
          "set (in_order r') = set (in_order r) - {s}" by auto
        have hn: "heights_nonneg (TreeNode s l r' h)" using TreeNode.prems r' by simp
        from remove_finish_defined[OF hn, of True] obtain t' where t':
          "remove_finish True (TreeNode s l r' h) = Some (True, t')"
          "heights_nonneg t'" "in_order t' = in_order (TreeNode s l r' h)" by blast
        have ds: "d < s" using gt s(2) by simp
        have "\<forall>x \<in> set (in_order l). x < s" using lt ds by auto
        moreover have "\<forall>x \<in> set (in_order r'). s < x" using r'(4) s(3) by auto
        ultimately have "bst (TreeNode s l r' h)" using bl r'(3) by simp
        then have "bst t'" using t'(3) by (simp add: bst_sorted)
        moreover have "set (in_order t') = set (in_order (TreeNode d l r h)) - {v}"
          using t'(3) r'(4) s(2) eq notl notr ds \<open>\<forall>x \<in> set (in_order l). x < s\<close> by auto
        ultimately show ?thesis using lnn rnn eq s(1) r'(1) t'(1,2) by auto
      qed
    qed
  qed
qed

lemma run_call_tree_inv:
  assumes "tree_inv t"
  shows "\<exists>b t'. run_call c t = Some (b, t') \<and> tree_inv t'"
proof (cases c)
  case (Insert v)
  with avl_insert_correct[of t v] assms show ?thesis by (auto simp: tree_inv_def)
next
  case (Remove v)
  with avl_remove_correct[of t v] assms show ?thesis by (auto simp: tree_inv_def)
qed

lemma run_calls_tree_inv:
  "tree_inv t \<Longrightarrow> \<exists>bs t'. run_calls cs t = Some (bs, t') \<and> tree_inv t' \<and> length bs = length cs"
proof (induction cs arbitrary: t)
  case Nil
  then show ?case by simp
next
  case (Cons c cs)
  from run_call_tree_inv[OF Cons.prems, of c] obtain b t1 where 1: "run_call c t = Some (b, t1)" "tree_inv t1"
    by blast
  from Cons.IH[OF 1(2)] obtain bs t2 where 2: "run_calls cs t1 = Some (bs, t2)" "tree_inv t2" "length bs = length cs"
    by blast
  from 1 2 show ?case by simp
qed

lemmas eval_simps = new_TreeNode_def remove_finish_def Let_def is_balanced_def

lemma bst_distinct: "bst t \<Longrightarrow> distinct (in_order t)"
  by (simp add: bst_sorted strict_sorted_iff)

lemma in_order_length: "bst t \<Longrightarrow> length (in_order t) = card (set (in_order t))"
  by (simp add: bst_distinct distinct_card)

lemma run_call_step:
  assumes "tree_inv t" "run_call c t = Some (b, t')"
  shows "tree_inv t' \<and> set (in_order t') = present_values [c] (set (in_order t))
    \<and> int (length (in_order t')) =
        int (length (in_order t)) + int (inserts_true [c] [b]) - int (removes_true [c] [b])"
proof (cases c)
  case (Insert v)
  from assms(1) have h: "heights_nonneg t" and b: "bst t" by (simp_all add: tree_inv_def)
  from avl_insert_correct[OF h b, of v] assms(2) Insert obtain
    t': "b = (v \<notin> set (in_order t))" "heights_nonneg t'" "bst t'"
        "set (in_order t') = insert v (set (in_order t))" by auto
  have "card (set (in_order t')) = card (set (in_order t)) + (if b then 1 else 0)"
  proof (cases b)
    case True
    with t'(1,4) show ?thesis by simp
  next
    case False
    with t'(1,4) show ?thesis by (simp add: insert_absorb)
  qed
  then have "length (in_order t') = length (in_order t) + (if b then 1 else 0)"
    using in_order_length[OF b] in_order_length[OF t'(3)] by simp
  then have "int (length (in_order t')) =
        int (length (in_order t)) + int (inserts_true [c] [b]) - int (removes_true [c] [b])"
    using Insert by simp
  moreover have "tree_inv t'" using t'(2,3) by (simp add: tree_inv_def)
  moreover have "set (in_order t') = present_values [c] (set (in_order t))"
    using t'(4) Insert by simp
  ultimately show ?thesis by blast
next
  case (Remove v)
  from assms(1) have h: "heights_nonneg t" and b: "bst t" by (simp_all add: tree_inv_def)
  from avl_remove_correct[OF h b, of v] assms(2) Remove obtain
    t': "b = (v \<in> set (in_order t))" "heights_nonneg t'" "bst t'"
        "set (in_order t') = set (in_order t) - {v}" by auto
  have "card (set (in_order t')) + (if b then 1 else 0) = card (set (in_order t))"
  proof (cases b)
    case True
    with t'(1) have "Suc (card (set (in_order t) - {v})) = card (set (in_order t))"
      by (intro card_Suc_Diff1) simp_all
    with True t'(4) show ?thesis by simp
  next
    case False
    with t'(1,4) show ?thesis by simp
  qed
  then have "length (in_order t') + (if b then 1 else 0) = length (in_order t)"
    using in_order_length[OF b] in_order_length[OF t'(3)] by simp
  then have "int (length (in_order t')) =
        int (length (in_order t)) + int (inserts_true [c] [b]) - int (removes_true [c] [b])"
    using Remove by (simp split: if_splits)
  moreover have "tree_inv t'" using t'(2,3) by (simp add: tree_inv_def)
  moreover have "set (in_order t') = present_values [c] (set (in_order t))"
    using t'(4) Remove by simp
  ultimately show ?thesis by blast
qed

lemma run_calls_abstract:
  "tree_inv t \<Longrightarrow> run_calls cs t = Some (bs, t') \<Longrightarrow>
     tree_inv t' \<and> set (in_order t') = present_values cs (set (in_order t))
     \<and> int (length (in_order t')) =
         int (length (in_order t)) + int (inserts_true cs bs) - int (removes_true cs bs)"
proof (induction cs arbitrary: t bs)
  case Nil
  then show ?case by simp
next
  case (Cons c cs)
  from Cons.prems(2) obtain b t1 bs1 where 1: "run_call c t = Some (b, t1)"
    "run_calls cs t1 = Some (bs1, t')" "bs = b # bs1"
    by (auto split: option.splits)
  note s = run_call_step[OF Cons.prems(1) 1(1)]
  from s have i1: "tree_inv t1" by simp
  note r = Cons.IH[OF i1 1(2)]
  show ?case
  proof (cases c)
    case (Insert v)
    with s r 1(3) show ?thesis by simp
  next
    case (Remove v)
    with s r 1(3) show ?thesis by simp
  qed
qed

lemma tree_inv_Nullptr: "tree_inv Nullptr"
  by (simp add: tree_inv_def)

lemma reachable_tree_inv: "run_calls cs Nullptr = Some (bs, t) \<Longrightarrow> tree_inv t"
  using run_calls_abstract[OF tree_inv_Nullptr] by blast

lemma reachable_defined: "\<exists>bs t. run_calls cs Nullptr = Some (bs, t) \<and> tree_inv t"
  using run_calls_tree_inv[OF tree_inv_Nullptr, of cs] by blast

lemma avl_insert_log_erase:
  "map_option (\<lambda>(b, t, evs). (b, t)) (avl_insert_log v t) = avl_insert v t"
proof (induction t)
  case Nullptr
  show ?case by simp
next
  case (TreeNode d l r h)
  show ?case
  proof (cases "v = d")
    case True
    then show ?thesis by simp
  next
    case ne: False
    show ?thesis
    proof (cases "v < d")
      case True
      with ne TreeNode.IH(1)[symmetric] show ?thesis
        by (cases "avl_insert_log v l")
           (auto simp del: update_and_balance.simps balance_event.simps
                 simp add: option.map_comp comp_def)
    next
      case False
      with ne TreeNode.IH(2)[symmetric] show ?thesis
        by (cases "avl_insert_log v r")
           (auto simp del: update_and_balance.simps balance_event.simps
                 simp add: option.map_comp comp_def)
    qed
  qed
qed

lemma balance_case_rotation:
  "balance_case t = SimpleRight \<Longrightarrow> balance t = rotate_right t"
  "balance_case t = SimpleLeft \<Longrightarrow> balance t = rotate_left t"
  "balance_case t = DoubleLeftRight \<Longrightarrow> balance t = Option.bind (double_left_right t) rotate_right"
  "balance_case t = DoubleRightLeft \<Longrightarrow> balance t = Option.bind (double_right_left t) rotate_left"
  by (cases t; simp add: Let_def split: if_splits option.splits prod.splits)+

lemma balance_case_no_rotation:
  "balance_case t = NoRotation \<Longrightarrow> balance t = Some t' \<Longrightarrow> pre_order t' = pre_order t"
  by (cases t) (auto simp: Let_def split: if_splits option.splits prod.splits)

lemma is_balanced_node_eq: "is_balanced_node t = (avl_shape t, structural_height t)"
  by (induction t) (auto simp: Let_def)

lemma is_balanced_avl_shape: "is_balanced t = avl_shape t"
  by (simp add: is_balanced_def is_balanced_node_eq)

section \<open>The claims\<close>

text \<open>
  C1. Claimed: in every state reachable from the empty tree, the stored height of every node
  is \<open>1 + max (height left) (height right)\<close>, a missing subtree counting \<open>-1\<close>. The
  constructor stores 1 in a new node, whose two subtrees are missing: after the single call
  \<^verbatim>\<open>insert(10)\<close> the root holds height 1 where the formula gives 0, whether the heights of
  the children are read from their fields or counted on the structure.
\<close>

theorem C1_height_field_of_new_node:
  "run_calls [Insert (10::int)] Nullptr = Some ([True], TreeNode 10 Nullptr Nullptr 1)
   \<and> \<not> height_fields_consistent (TreeNode (10::int) Nullptr Nullptr 1)
   \<and> \<not> height_fields_structural (TreeNode (10::int) Nullptr Nullptr 1)
   \<and> 1 + max (height (Nullptr :: int TreeNode)) (height (Nullptr :: int TreeNode)) = 0"
  by (simp add: new_TreeNode_def)

text \<open>
  C2. Claimed: in every reachable state the structural heights of the two subtrees of every
  node differ by at most 1, and \<^verbatim>\<open>is_balanced()\<close> returns true. Inserting 1, 2, 0, 3, 4, 5
  into the empty tree leaves a root whose left subtree is the single node 0 and whose right
  subtree has three levels: \<^verbatim>\<open>is_balanced()\<close> returns false.
\<close>

theorem C2_unbalanced_after_six_inserts:
  "run_calls (map Insert [1::int, 2, 0, 3, 4, 5]) Nullptr =
     Some ([True, True, True, True, True, True],
       TreeNode 1 (TreeNode 0 Nullptr Nullptr 1)
         (TreeNode 3 (TreeNode 2 Nullptr Nullptr 0)
            (TreeNode 5 (TreeNode 4 Nullptr Nullptr 0) Nullptr 1) 2) 3)
   \<and> \<not> is_balanced (TreeNode (1::int) (TreeNode 0 Nullptr Nullptr 1)
         (TreeNode 3 (TreeNode 2 Nullptr Nullptr 0)
            (TreeNode 5 (TreeNode 4 Nullptr Nullptr 0) Nullptr 1) 2) 3)
   \<and> \<not> avl_shape (TreeNode (1::int) (TreeNode 0 Nullptr Nullptr 1)
         (TreeNode 3 (TreeNode 2 Nullptr Nullptr 0)
            (TreeNode 5 (TreeNode 4 Nullptr Nullptr 0) Nullptr 1) 2) 3)
   \<and> structural_height (TreeNode (0::int) Nullptr Nullptr 1) = 0
   \<and> structural_height (TreeNode 3 (TreeNode 2 Nullptr Nullptr 0)
            (TreeNode 5 (TreeNode (4::int) Nullptr Nullptr 0) Nullptr 1) 2) = 2"
  by (simp add: eval_simps)

text \<open>
  C3. Every sequence of \<^verbatim>\<open>insert\<close> and \<^verbatim>\<open>remove\<close> calls from the empty tree runs to its end
  without dereferencing \<^verbatim>\<open>nullptr\<close>, and in the state it reaches every node has only smaller
  values in its left subtree and only greater values in its right subtree.
\<close>

theorem C3_bst_invariant:
  "\<exists>bs t. run_calls cs Nullptr = Some (bs, t) \<and> bst t"
  using reachable_defined[of cs] by (auto simp: tree_inv_def)

theorem C3_bst_invariant_witness:
  "run_calls [Insert (2::int), Insert 1, Insert 3, Remove 2] Nullptr =
     Some ([True, True, True, True], TreeNode 3 (TreeNode 1 Nullptr Nullptr 0) Nullptr 1)
   \<and> bst (TreeNode (3::int) (TreeNode 1 Nullptr Nullptr 0) Nullptr 1)"
proof -
  have run: "run_calls [Insert (2::int), Insert 1, Insert 3, Remove 2] Nullptr =
     Some ([True, True, True, True], TreeNode 3 (TreeNode 1 Nullptr Nullptr 0) Nullptr 1)"
    by (simp add: eval_simps)
  from C3_bst_invariant[of "[Insert (2::int), Insert 1, Insert 3, Remove 2]"]
  obtain bs t where "run_calls [Insert (2::int), Insert 1, Insert 3, Remove 2] Nullptr = Some (bs, t)"
    and "bst t" by blast
  with run show ?thesis by simp
qed

text \<open>
  C4. After every sequence of calls from the empty tree, \<^verbatim>\<open>in_order()\<close> is strictly
  ascending, holds exactly the values present (those inserted and not removed since), and
  its length is the number of \<^verbatim>\<open>insert\<close> calls that returned true minus the number of
  \<^verbatim>\<open>remove\<close> calls that returned true.
\<close>

theorem C4_in_order_sorted_and_counted:
  "\<exists>bs t. run_calls cs Nullptr = Some (bs, t)
     \<and> sorted_wrt (<) (in_order t)
     \<and> set (in_order t) = present_values cs {}
     \<and> int (length (in_order t)) = int (inserts_true cs bs) - int (removes_true cs bs)"
proof -
  from reachable_defined[of cs] obtain bs t where run: "run_calls cs Nullptr = Some (bs, t)"
    by blast
  from run_calls_abstract[OF tree_inv_Nullptr run]
  have "tree_inv t" "set (in_order t) = present_values cs {}"
    "int (length (in_order t)) = int (inserts_true cs bs) - int (removes_true cs bs)"
    by simp_all
  moreover from \<open>tree_inv t\<close> have "sorted_wrt (<) (in_order t)"
    by (simp add: tree_inv_def bst_sorted)
  ultimately show ?thesis using run by blast
qed

theorem C4_in_order_sorted_and_counted_witness:
  "run_calls [Insert (2::int), Insert 1, Insert 2, Remove 3, Insert 3, Remove 1] Nullptr =
     Some ([True, True, False, False, True, True],
           TreeNode 3 (TreeNode 2 Nullptr Nullptr 0) Nullptr 1)
   \<and> in_order (TreeNode (3::int) (TreeNode 2 Nullptr Nullptr 0) Nullptr 1) = [2, 3]
   \<and> sorted_wrt (<) [2::int, 3]
   \<and> set [2::int, 3] =
       present_values [Insert 2, Insert 1, Insert 2, Remove 3, Insert 3, Remove 1] {}
   \<and> int (length [2::int, 3]) =
       int (inserts_true [Insert (2::int), Insert 1, Insert 2, Remove 3, Insert 3, Remove 1]
              [True, True, False, False, True, True])
       - int (removes_true [Insert (2::int), Insert 1, Insert 2, Remove 3, Insert 3, Remove 1]
              [True, True, False, False, True, True])"
proof -
  let ?cs = "[Insert (2::int), Insert 1, Insert 2, Remove 3, Insert 3, Remove 1]"
  have run: "run_calls ?cs Nullptr =
     Some ([True, True, False, False, True, True],
           TreeNode 3 (TreeNode 2 Nullptr Nullptr 0) Nullptr 1)"
    by (simp add: eval_simps)
  from C4_in_order_sorted_and_counted[of ?cs]
  obtain bs t where obt: "run_calls ?cs Nullptr = Some (bs, t)"
    "sorted_wrt (<) (in_order t)" "set (in_order t) = present_values ?cs {}"
    "int (length (in_order t)) = int (inserts_true ?cs bs) - int (removes_true ?cs bs)"
    by blast
  from obt(1)[unfolded run]
  have bs: "bs = [True, True, False, False, True, True]"
    and t: "t = TreeNode 3 (TreeNode 2 Nullptr Nullptr 0) Nullptr 1" by simp_all
  have io: "in_order (TreeNode (3::int) (TreeNode 2 Nullptr Nullptr 0) Nullptr 1) = [2, 3]"
    by simp
  from obt(2) have "sorted_wrt (<) [2::int, 3]" unfolding t io .
  moreover from obt(3) have "set [2::int, 3] = present_values ?cs {}" unfolding t io .
  moreover from obt(4) have "int (length [2::int, 3]) =
      int (inserts_true ?cs [True, True, False, False, True, True])
      - int (removes_true ?cs [True, True, False, False, True, True])" unfolding t io bs .
  ultimately show ?thesis using run io by blast
qed

text \<open>
  C5. In a state reachable from the empty tree, \<^verbatim>\<open>insert(x)\<close> returns, and if it returns true
  then \<^verbatim>\<open>contain(x)\<close> is true in the new state; \<^verbatim>\<open>remove(y)\<close> returns, and if it returns
  true then \<^verbatim>\<open>contain(y)\<close> is false in the new state.
\<close>

theorem C5_membership_after_success:
  assumes "run_calls cs Nullptr = Some (bs, t)"
  shows "(\<exists>b t'. avl_insert x t = Some (b, t') \<and> (b \<longrightarrow> contain t' x))
       \<and> (\<exists>b t'. avl_remove y t = Some (b, t') \<and> (b \<longrightarrow> \<not> contain t' y))"
proof -
  from reachable_tree_inv[OF assms] have h: "heights_nonneg t" and b: "bst t"
    by (simp_all add: tree_inv_def)
  from avl_insert_correct[OF h b, of x] obtain t1 where
    "avl_insert x t = Some (x \<notin> set (in_order t), t1)" "bst t1"
    "set (in_order t1) = insert x (set (in_order t))" by blast
  then have "\<exists>b t'. avl_insert x t = Some (b, t') \<and> (b \<longrightarrow> contain t' x)"
    by (auto simp: contain_set)
  moreover from avl_remove_correct[OF h b, of y] obtain t2 where
    "avl_remove y t = Some (y \<in> set (in_order t), t2)" "bst t2"
    "set (in_order t2) = set (in_order t) - {y}" by blast
  then have "\<exists>b t'. avl_remove y t = Some (b, t') \<and> (b \<longrightarrow> \<not> contain t' y)"
    by (auto simp: contain_set)
  ultimately show ?thesis by blast
qed

theorem C5_membership_after_success_witness:
  "run_calls [Insert (1::int), Insert 2] Nullptr =
     Some ([True, True], TreeNode 2 (TreeNode 1 Nullptr Nullptr 0) Nullptr 1)
   \<and> avl_insert 3 (TreeNode (2::int) (TreeNode 1 Nullptr Nullptr 0) Nullptr 1) =
       Some (True, TreeNode 2 (TreeNode 1 Nullptr Nullptr 0) (TreeNode 3 Nullptr Nullptr 1) 2)
   \<and> contain (TreeNode (2::int) (TreeNode 1 Nullptr Nullptr 0) (TreeNode 3 Nullptr Nullptr 1) 2) 3
   \<and> avl_remove 1 (TreeNode (2::int) (TreeNode 1 Nullptr Nullptr 0) Nullptr 1) =
       Some (True, TreeNode 2 Nullptr Nullptr 0)
   \<and> \<not> contain (TreeNode (2::int) Nullptr Nullptr 0) 1"
proof -
  let ?t = "TreeNode (2::int) (TreeNode 1 Nullptr Nullptr 0) Nullptr 1"
  have run: "run_calls [Insert (1::int), Insert 2] Nullptr = Some ([True, True], ?t)"
    by (simp add: eval_simps)
  have ins: "avl_insert 3 ?t =
      Some (True, TreeNode 2 (TreeNode 1 Nullptr Nullptr 0) (TreeNode 3 Nullptr Nullptr 1) 2)"
    by (simp add: eval_simps)
  have rem: "avl_remove 1 ?t = Some (True, TreeNode 2 Nullptr Nullptr 0)"
    by (simp add: eval_simps)
  from C5_membership_after_success[OF run, of 3 1]
  obtain b1 t1 b2 t2 where 1: "avl_insert 3 ?t = Some (b1, t1)" "b1 \<longrightarrow> contain t1 3"
    and 2: "avl_remove 1 ?t = Some (b2, t2)" "b2 \<longrightarrow> \<not> contain t2 1" by blast
  from 1(1)[unfolded ins] 1(2)
  have "contain (TreeNode (2::int) (TreeNode 1 Nullptr Nullptr 0) (TreeNode 3 Nullptr Nullptr 1) 2) 3"
    by blast
  moreover from 2(1)[unfolded rem] 2(2)
  have "\<not> contain (TreeNode (2::int) Nullptr Nullptr 0) 1" by blast
  ultimately show ?thesis using run ins rem by blast
qed

text \<open>
  C6. In a state reachable from the empty tree, if \<open>x\<close> is stored in the tree (and then
  \<^verbatim>\<open>contain(x)\<close> reports it), \<^verbatim>\<open>insert(x)\<close> returns false and the tree afterwards is the
  tree before, node for node and height for height; so \<^verbatim>\<open>in_order()\<close> is the same.
\<close>

theorem C6_duplicate_insert_unchanged:
  assumes "run_calls cs Nullptr = Some (bs, t)" and "x \<in> set (in_order t)"
  shows "contain t x \<and> avl_insert x t = Some (False, t)"
proof -
  from reachable_tree_inv[OF assms(1)] have h: "heights_nonneg t" and b: "bst t"
    by (simp_all add: tree_inv_def)
  from avl_insert_correct[OF h b, of x] assms(2) have "avl_insert x t = Some (False, t)"
    by auto
  with assms(2) b show ?thesis by (simp add: contain_set)
qed

theorem C6_duplicate_insert_unchanged_witness:
  "run_calls [Insert (1::int), Insert 2] Nullptr =
     Some ([True, True], TreeNode 2 (TreeNode 1 Nullptr Nullptr 0) Nullptr 1)
   \<and> (1::int) \<in> set (in_order (TreeNode 2 (TreeNode 1 Nullptr Nullptr 0) Nullptr 1))
   \<and> contain (TreeNode (2::int) (TreeNode 1 Nullptr Nullptr 0) Nullptr 1) 1
   \<and> avl_insert 1 (TreeNode (2::int) (TreeNode 1 Nullptr Nullptr 0) Nullptr 1) =
       Some (False, TreeNode 2 (TreeNode 1 Nullptr Nullptr 0) Nullptr 1)"
proof -
  let ?t = "TreeNode (2::int) (TreeNode 1 Nullptr Nullptr 0) Nullptr 1"
  have run: "run_calls [Insert (1::int), Insert 2] Nullptr = Some ([True, True], ?t)"
    by (simp add: eval_simps)
  have mem: "(1::int) \<in> set (in_order ?t)" by simp
  from C6_duplicate_insert_unchanged[OF run mem] run mem show ?thesis by blast
qed

text \<open>
  C7. In a state reachable from the empty tree, if \<open>x\<close> is not stored in the tree,
  \<^verbatim>\<open>remove(x)\<close> returns false and the tree afterwards is the tree before; two such calls in
  a row both return false and leave the tree as it was.
\<close>

theorem C7_absent_remove_unchanged:
  assumes "run_calls cs Nullptr = Some (bs, t)" and "x \<notin> set (in_order t)"
  shows "avl_remove x t = Some (False, t)
       \<and> run_calls [Remove x, Remove x] t = Some ([False, False], t)"
proof -
  from reachable_tree_inv[OF assms(1)] have h: "heights_nonneg t" and b: "bst t"
    by (simp_all add: tree_inv_def)
  from avl_remove_correct[OF h b, of x] assms(2) have "avl_remove x t = Some (False, t)"
    by auto
  then show ?thesis by simp
qed

theorem C7_absent_remove_unchanged_witness:
  "run_calls [Insert (1::int), Insert 2] Nullptr =
     Some ([True, True], TreeNode 2 (TreeNode 1 Nullptr Nullptr 0) Nullptr 1)
   \<and> (3::int) \<notin> set (in_order (TreeNode 2 (TreeNode 1 Nullptr Nullptr 0) Nullptr 1))
   \<and> avl_remove 3 (TreeNode (2::int) (TreeNode 1 Nullptr Nullptr 0) Nullptr 1) =
       Some (False, TreeNode 2 (TreeNode 1 Nullptr Nullptr 0) Nullptr 1)
   \<and> run_calls [Remove 3, Remove 3] (TreeNode (2::int) (TreeNode 1 Nullptr Nullptr 0) Nullptr 1) =
       Some ([False, False], TreeNode 2 (TreeNode 1 Nullptr Nullptr 0) Nullptr 1)"
proof -
  let ?t = "TreeNode (2::int) (TreeNode 1 Nullptr Nullptr 0) Nullptr 1"
  have run: "run_calls [Insert (1::int), Insert 2] Nullptr = Some ([True, True], ?t)"
    by (simp add: eval_simps)
  have mem: "(3::int) \<notin> set (in_order ?t)" by simp
  from C7_absent_remove_unchanged[OF run mem] run mem show ?thesis by blast
qed

text \<open>
  C8. From the empty tree, \<^verbatim>\<open>insert(10)\<close> makes no call of \<^verbatim>\<open>balance\<close>; \<^verbatim>\<open>insert(20)\<close> makes
  one, on the root 10, which takes the simple left rotation; \<^verbatim>\<open>insert(30)\<close> makes one, on
  the root 20, which rotates nothing. So the three calls perform a single rotation, a left
  rotation at the root, and afterwards \<^verbatim>\<open>in_order()\<close> is 10, 20, 30, \<^verbatim>\<open>pre_order()\<close> is
  20, 10, 30, the root holds 20 and \<^verbatim>\<open>is_balanced()\<close> is true.
\<close>

theorem C8_insert_10_20_30:
  "avl_insert_log (10::int) Nullptr = Some (True, TreeNode 10 Nullptr Nullptr 1, [])
   \<and> avl_insert_log 20 (TreeNode (10::int) Nullptr Nullptr 1) =
       Some (True, TreeNode 20 (TreeNode 10 Nullptr Nullptr 0) Nullptr 1, [(10, SimpleLeft)])
   \<and> rotate_left (TreeNode (10::int) Nullptr (TreeNode 20 Nullptr Nullptr 1) 2) =
       Some (TreeNode 20 (TreeNode 10 Nullptr Nullptr 0) Nullptr 1)
   \<and> avl_insert_log 30 (TreeNode (20::int) (TreeNode 10 Nullptr Nullptr 0) Nullptr 1) =
       Some (True, TreeNode 20 (TreeNode 10 Nullptr Nullptr 0) (TreeNode 30 Nullptr Nullptr 1) 2,
             [(20, NoRotation)])
   \<and> run_calls [Insert (10::int), Insert 20, Insert 30] Nullptr =
       Some ([True, True, True],
             TreeNode 20 (TreeNode 10 Nullptr Nullptr 0) (TreeNode 30 Nullptr Nullptr 1) 2)
   \<and> in_order (TreeNode (20::int) (TreeNode 10 Nullptr Nullptr 0) (TreeNode 30 Nullptr Nullptr 1) 2)
       = [10, 20, 30]
   \<and> pre_order (TreeNode (20::int) (TreeNode 10 Nullptr Nullptr 0) (TreeNode 30 Nullptr Nullptr 1) 2)
       = [20, 10, 30]
   \<and> data (TreeNode (20::int) (TreeNode 10 Nullptr Nullptr 0) (TreeNode 30 Nullptr Nullptr 1) 2)
       = Some 20
   \<and> is_balanced (TreeNode (20::int) (TreeNode 10 Nullptr Nullptr 0) (TreeNode 30 Nullptr Nullptr 1) 2)"
  by (simp add: eval_simps)

text \<open>
  C9. Inserting 50, 30, 70, 20, 40, 60, 80 into the empty tree gives the root 50 with the
  children 30 (over 20 and 40) and 70 (over 60 and 80). \<^verbatim>\<open>remove(30)\<close> then returns true:
  the minimum of the right subtree of that node is 40, and afterwards the node in the place
  of 30 holds 40, \<^verbatim>\<open>in_order()\<close> is 20, 40, 50, 60, 70, 80 and \<^verbatim>\<open>is_balanced()\<close> is true.
\<close>

theorem C9_remove_node_with_two_children:
  "run_calls (map Insert [50::int, 30, 70, 20, 40, 60, 80]) Nullptr =
     Some ([True, True, True, True, True, True, True],
       TreeNode 50
         (TreeNode 30 (TreeNode 20 Nullptr Nullptr 0) (TreeNode 40 Nullptr Nullptr 1) 2)
         (TreeNode 70 (TreeNode 60 Nullptr Nullptr 0) (TreeNode 80 Nullptr Nullptr 1) 2) 3)
   \<and> min_data (TreeNode (40::int) Nullptr Nullptr 1) = Some 40
   \<and> avl_remove 30
       (TreeNode (50::int)
         (TreeNode 30 (TreeNode 20 Nullptr Nullptr 0) (TreeNode 40 Nullptr Nullptr 1) 2)
         (TreeNode 70 (TreeNode 60 Nullptr Nullptr 0) (TreeNode 80 Nullptr Nullptr 1) 2) 3) =
     Some (True,
       TreeNode 50
         (TreeNode 40 (TreeNode 20 Nullptr Nullptr 0) Nullptr 1)
         (TreeNode 70 (TreeNode 60 Nullptr Nullptr 0) (TreeNode 80 Nullptr Nullptr 1) 2) 3)
   \<and> in_order (TreeNode (50::int)
         (TreeNode 40 (TreeNode 20 Nullptr Nullptr 0) Nullptr 1)
         (TreeNode 70 (TreeNode 60 Nullptr Nullptr 0) (TreeNode 80 Nullptr Nullptr 1) 2) 3)
       = [20, 40, 50, 60, 70, 80]
   \<and> is_balanced (TreeNode (50::int)
         (TreeNode 40 (TreeNode 20 Nullptr Nullptr 0) Nullptr 1)
         (TreeNode 70 (TreeNode 60 Nullptr Nullptr 0) (TreeNode 80 Nullptr Nullptr 1) 2) 3)"
  by (simp add: eval_simps)

text \<open>
  C10. In a state reachable from the empty tree and for \<open>x \<noteq> y\<close>, \<^verbatim>\<open>insert(x)\<close> returns
  and \<^verbatim>\<open>contain(y)\<close> is afterwards what it was before; the same for \<^verbatim>\<open>remove(x)\<close>.
\<close>

theorem C10_other_membership_preserved:
  assumes "run_calls cs Nullptr = Some (bs, t)" and "x \<noteq> y"
  shows "(\<exists>b t'. avl_insert x t = Some (b, t') \<and> contain t' y = contain t y)
       \<and> (\<exists>b t'. avl_remove x t = Some (b, t') \<and> contain t' y = contain t y)"
proof -
  from reachable_tree_inv[OF assms(1)] have h: "heights_nonneg t" and b: "bst t"
    by (simp_all add: tree_inv_def)
  from avl_insert_correct[OF h b, of x] obtain t1 where
    "avl_insert x t = Some (x \<notin> set (in_order t), t1)" "bst t1"
    "set (in_order t1) = insert x (set (in_order t))" by blast
  with assms(2) b have "\<exists>b t'. avl_insert x t = Some (b, t') \<and> contain t' y = contain t y"
    by (auto simp: contain_set)
  moreover from avl_remove_correct[OF h b, of x] obtain t2 where
    "avl_remove x t = Some (x \<in> set (in_order t), t2)" "bst t2"
    "set (in_order t2) = set (in_order t) - {x}" by blast
  with assms(2) b have "\<exists>b t'. avl_remove x t = Some (b, t') \<and> contain t' y = contain t y"
    by (auto simp: contain_set)
  ultimately show ?thesis by blast
qed

theorem C10_other_membership_preserved_witness:
  "run_calls [Insert (1::int), Insert 2] Nullptr =
     Some ([True, True], TreeNode 2 (TreeNode 1 Nullptr Nullptr 0) Nullptr 1)
   \<and> (2::int) \<noteq> 1
   \<and> contain (TreeNode (2::int) (TreeNode 1 Nullptr Nullptr 0) Nullptr 1) 1
   \<and> avl_insert 2 (TreeNode (2::int) (TreeNode 1 Nullptr Nullptr 0) Nullptr 1) =
       Some (False, TreeNode 2 (TreeNode 1 Nullptr Nullptr 0) Nullptr 1)
   \<and> avl_remove 2 (TreeNode (2::int) (TreeNode 1 Nullptr Nullptr 0) Nullptr 1) =
       Some (True, TreeNode 1 Nullptr Nullptr 0)
   \<and> contain (TreeNode (1::int) Nullptr Nullptr 0) 1"
proof -
  let ?t = "TreeNode (2::int) (TreeNode 1 Nullptr Nullptr 0) Nullptr 1"
  have run: "run_calls [Insert (1::int), Insert 2] Nullptr = Some ([True, True], ?t)"
    by (simp add: eval_simps)
  have ne: "(2::int) \<noteq> 1" by simp
  have ins: "avl_insert 2 ?t = Some (False, ?t)" by (simp add: eval_simps)
  have rem: "avl_remove 2 ?t = Some (True, TreeNode 1 Nullptr Nullptr 0)"
    by (simp add: eval_simps)
  have c: "contain ?t 1" by simp
  from C10_other_membership_preserved[OF run ne]
  obtain b2 t2 where 2: "avl_remove 2 ?t = Some (b2, t2)" "contain t2 1 = contain ?t 1"
    by blast
  from 2(1)[unfolded rem] 2(2) c have "contain (TreeNode (1::int) Nullptr Nullptr 0) 1"
    by blast
  then show ?thesis using run ne ins rem c by blast
qed

end
